theory Spec2Isabelle
  imports Complex_Main
begin

section \<open>Distributed N-body simulation: the force kernel\<close>

text \<open>
  The development follows \<^verbatim>\<open>src/python/n_body_problem_distributed.py\<close>.
  NumPy's float64 values are modelled as real numbers (exact arithmetic), indices and the
  MPI rank and size as natural numbers. The module-level globals \<^verbatim>\<open>rank\<close> and
  \<^verbatim>\<open>size\<close> become explicit arguments. Python's implicit failures are values of
  type \<open>error\<close>: an index out of range, a slice with step zero, an operation on
  \<^verbatim>\<open>None\<close>, and a division whose divisor is zero (the fault that the guard
  \<^verbatim>\<open>distance > 0\<close> is written to avoid).
\<close>

type_synonym vec2 = "real \<times> real"

datatype error = ZeroDivisionError | IndexError | ValueError | TypeError

definition G :: real where
  \<comment> \<open>line 21: \<^verbatim>\<open>G = 6.67430e-11\<close>\<close>
  "G = 6.67430 / 10 ^ 11"

definition checked_div :: "real \<Rightarrow> real \<Rightarrow> error + real" where
  "checked_div a b = (if b = 0 then Inl ZeroDivisionError else Inr (a / b))"

definition row :: "'a list \<Rightarrow> nat \<Rightarrow> error + 'a" where
  \<comment> \<open>\<^verbatim>\<open>a[j, :]\<close> for a non-negative index: IndexError past the end\<close>
  "row a j = (if j < length a then Inr (a ! j) else Inl IndexError)"

definition slice_len :: "nat \<Rightarrow> nat \<Rightarrow> nat \<Rightarrow> nat" where
  \<comment> \<open>number of indices start, start + step, ... below stop, for a positive step\<close>
  "slice_len start stop step = (if start < stop then (stop - start - 1) div step + 1 else 0)"

definition strided_slice :: "nat \<Rightarrow> nat \<Rightarrow> 'a list \<Rightarrow> 'a list" where
  \<comment> \<open>\<^verbatim>\<open>a[start::step, :]\<close> for a positive step\<close>
  "strided_slice start step a =
     map (\<lambda>i. a ! (start + i * step)) [0..<slice_len start (length a) step]"

definition kernel :: "vec2 \<Rightarrow> vec2 \<Rightarrow> real \<Rightarrow> vec2 \<Rightarrow> error + vec2" where
  \<comment> \<open>lines 31-37: the body at \<open>p_j\<close> with mass \<open>mass\<close> acting on the body at \<open>p_i\<close>;
      \<open>acc\<close> is the row \<^verbatim>\<open>local_accelerations[i, :]\<close> before the update\<close>
  "kernel p_i p_j mass acc =
     (let dx = fst p_j - fst p_i;
          dy = snd p_j - snd p_i;
          distance = sqrt (dx\<^sup>2 + dy\<^sup>2)
      in if distance > 0 then
           (case checked_div (G * mass) (distance\<^sup>2) of
              Inl e \<Rightarrow> Inl e
            | Inr force \<Rightarrow>
               (case checked_div (force * dx) distance of
                  Inl e \<Rightarrow> Inl e
                | Inr ax \<Rightarrow>
                   (case checked_div (force * dy) distance of
                      Inl e \<Rightarrow> Inl e
                    | Inr ay \<Rightarrow> Inr (fst acc + ax, snd acc + ay))))
         else Inr acc)"

definition pair_update ::
  "vec2 list \<Rightarrow> vec2 list \<Rightarrow> nat \<Rightarrow> nat \<Rightarrow> real \<Rightarrow> vec2 \<Rightarrow> error + vec2" where
  \<comment> \<open>lines 30-37: one pass of the inner loop body, \<open>i\<close> a local index, \<open>j\<close> a global one\<close>
  "pair_update positions local_positions i j mass acc =
     (if i \<noteq> j then
        (case row positions j of
           Inl e \<Rightarrow> Inl e
         | Inr p_j \<Rightarrow>
            (case row local_positions i of
               Inl e \<Rightarrow> Inl e
             | Inr p_i \<Rightarrow> kernel p_i p_j mass acc))
      else Inr acc)"

fun inner_loop ::
  "vec2 list \<Rightarrow> vec2 list \<Rightarrow> nat \<Rightarrow> (nat \<times> real) list \<Rightarrow> vec2 \<Rightarrow> error + vec2" where
  \<comment> \<open>line 29: \<^verbatim>\<open>for j, mass in enumerate(masses)\<close>\<close>
  "inner_loop positions local_positions i [] acc = Inr acc"
| "inner_loop positions local_positions i ((j, mass) # rest) acc =
     (case pair_update positions local_positions i j mass acc of
        Inl e \<Rightarrow> Inl e
      | Inr acc' \<Rightarrow> inner_loop positions local_positions i rest acc')"

fun outer_loop ::
  "vec2 list \<Rightarrow> vec2 list \<Rightarrow> real list \<Rightarrow> nat list \<Rightarrow> vec2 list \<Rightarrow> error + vec2 list" where
  \<comment> \<open>line 28: \<^verbatim>\<open>for i in range(n)\<close>, threading \<^verbatim>\<open>local_accelerations\<close>\<close>
  "outer_loop positions local_positions masses [] local_accelerations = Inr local_accelerations"
| "outer_loop positions local_positions masses (i # is) local_accelerations =
     (case inner_loop positions local_positions i (enumerate 0 masses) (local_accelerations ! i) of
        Inl e \<Rightarrow> Inl e
      | Inr a \<Rightarrow> outer_loop positions local_positions masses is (local_accelerations[i := a]))"

fun write_back :: "nat \<Rightarrow> nat \<Rightarrow> vec2 list \<Rightarrow> nat list \<Rightarrow> vec2 list \<Rightarrow> error + vec2 list" where
  \<comment> \<open>lines 40-41: \<^verbatim>\<open>accelerations[rank + i * size, :] = local_accelerations[i, :]\<close>\<close>
  "write_back rank size' local_accelerations [] accelerations = Inr accelerations"
| "write_back rank size' local_accelerations (i # is) accelerations =
     (if rank + i * size' < length accelerations then
        write_back rank size' local_accelerations is
          (accelerations[rank + i * size' := local_accelerations ! i])
      else Inl IndexError)"

definition calculate_accelerations ::
  "nat \<Rightarrow> nat \<Rightarrow> vec2 list \<Rightarrow> real list \<Rightarrow> error + vec2 list" where
  "calculate_accelerations rank size' positions masses =
     (if size' = 0 then Inl ValueError
      else
        let local_positions = strided_slice rank size' positions;
            n = length local_positions
        in case outer_loop positions local_positions masses [0..<n] (replicate n (0, 0)) of
             Inl e \<Rightarrow> Inl e
           | Inr local_accelerations \<Rightarrow>
               write_back rank size' local_accelerations [0..<n]
                 (replicate (length positions) (0, 0)))"


section \<open>The processes and one step of the main loop\<close>

text \<open>
  Every process runs \<^verbatim>\<open>main\<close> with its own local variables. The state of the whole
  run is the list of the processes' local states, indexed by rank; its length is the number
  of processes. A collective operation changes the variables of the processes that call it,
  and of no other process; a call that only some processes make is taken to return for
  them. The plotting of lines 58-60 and 124-133 is left out.
\<close>

record rank_state =
  positions :: "vec2 list option"
  masses :: "real list option"
  velocities :: "vec2 list option"
  t :: real

definition initial_conditions :: "nat \<Rightarrow> vec2 list \<Rightarrow> real list \<Rightarrow> vec2 list \<Rightarrow> rank_state" where
  \<comment> \<open>lines 54 and 63-74; \<open>P\<close>, \<open>M\<close>, \<open>V\<close> stand for the arrays that rank 0 draws at random\<close>
  "initial_conditions rank P M V =
     (if rank = 0 then \<lparr>positions = Some P, masses = Some M, velocities = Some V, t = 0\<rparr>
      else \<lparr>positions = None, masses = None, velocities = None, t = 0\<rparr>)"

definition bcast :: "nat \<Rightarrow> 'a list \<Rightarrow> 'a list" where
  \<comment> \<open>\<^verbatim>\<open>comm.bcast(obj, root)\<close> called by every process: each receives the root's object\<close>
  "bcast root' objs = map (\<lambda>_. objs ! root') objs"

definition broadcast_initial :: "rank_state list \<Rightarrow> rank_state list" where
  \<comment> \<open>lines 77-79\<close>
  "broadcast_initial w =
     (let ps = bcast 0 (map positions w);
          ms = bcast 0 (map masses w);
          vs = bcast 0 (map velocities w)
      in map (\<lambda>rank. (w ! rank)\<lparr>positions := ps ! rank, masses := ms ! rank,
                                  velocities := vs ! rank\<rparr>) [0..<length w])"

definition main_init :: "nat \<Rightarrow> vec2 list \<Rightarrow> real list \<Rightarrow> vec2 list \<Rightarrow> rank_state list" where
  \<comment> \<open>lines 54-79 on \<open>size'\<close> processes\<close>
  "main_init size' P M V =
     broadcast_initial (map (\<lambda>rank. initial_conditions rank P M V) [0..<size'])"

fun collect :: "(error + 'a) list \<Rightarrow> error + 'a list" where
  \<comment> \<open>the results of all processes, or the first failure\<close>
  "collect [] = Inr []"
| "collect (Inl e # rs) = Inl e"
| "collect (Inr x # rs) = (case collect rs of Inl e \<Rightarrow> Inl e | Inr xs \<Rightarrow> Inr (x # xs))"

definition spmd ::
  "(nat \<Rightarrow> rank_state \<Rightarrow> error + rank_state) \<Rightarrow> rank_state list \<Rightarrow> error + rank_state list" where
  \<comment> \<open>every process runs the same statements \<open>f\<close> on its own rank and state\<close>
  "spmd f w = collect (map (\<lambda>rank. f rank (w ! rank)) [0..<length w])"

definition vadd :: "vec2 \<Rightarrow> vec2 \<Rightarrow> vec2" where
  "vadd a b = (fst a + fst b, snd a + snd b)"

definition vscale :: "real \<Rightarrow> vec2 \<Rightarrow> vec2" where
  "vscale c a = (c * fst a, c * snd a)"

fun Reduce_SUM :: "vec2 list list \<Rightarrow> vec2 list" where
  \<comment> \<open>\<^verbatim>\<open>comm.Reduce(sendbuf, recvbuf, op=MPI.SUM, root=0)\<close>: what rank 0 receives\<close>
  "Reduce_SUM [] = []"
| "Reduce_SUM (b # bs) = foldl (\<lambda>acc buf. map2 vadd acc buf) b bs"

definition local_accelerations :: "nat \<Rightarrow> nat \<Rightarrow> rank_state \<Rightarrow> error + vec2 list" where
  \<comment> \<open>lines 86 and 109\<close>
  "local_accelerations rank size' s =
     (case positions s of
        None \<Rightarrow> Inl TypeError
      | Some p \<Rightarrow>
         (case masses s of
            None \<Rightarrow> Inl TypeError
          | Some m \<Rightarrow> calculate_accelerations rank size' p m))"

definition reduced_accelerations :: "rank_state list \<Rightarrow> error + vec2 list" where
  \<comment> \<open>lines 86-94 and 109-115: every process evaluates its share, rank 0 receives the sum\<close>
  "reduced_accelerations w =
     (case collect (map (\<lambda>rank. local_accelerations rank (length w) (w ! rank)) [0..<length w]) of
        Inl e \<Rightarrow> Inl e
      | Inr bufs \<Rightarrow> Inr (Reduce_SUM bufs))"

definition add_scaled :: "vec2 list \<Rightarrow> real \<Rightarrow> vec2 list \<Rightarrow> error + vec2 list" where
  \<comment> \<open>\<^verbatim>\<open>x += c * y\<close> on arrays of one shape; NumPy raises ValueError otherwise\<close>
  "add_scaled x c y =
     (if length x = length y then Inr (map2 (\<lambda>a b. vadd a (vscale c b)) x y)
      else Inl ValueError)"

definition half_kick_drift :: "real \<Rightarrow> vec2 list \<Rightarrow> rank_state \<Rightarrow> error + rank_state" where
  \<comment> \<open>lines 98 and 101\<close>
  "half_kick_drift dt all_accelerations s =
     (case velocities s of
        None \<Rightarrow> Inl TypeError
      | Some v \<Rightarrow>
         (case add_scaled v (0.5 * dt) all_accelerations of
            Inl e \<Rightarrow> Inl e
          | Inr v' \<Rightarrow>
             (case positions s of
                None \<Rightarrow> Inl TypeError
              | Some x \<Rightarrow>
                 (case add_scaled x dt v' of
                    Inl e \<Rightarrow> Inl e
                  | Inr x' \<Rightarrow> Inr (s\<lparr>velocities := Some v', positions := Some x'\<rparr>)))))"

definition Bcast :: "nat \<Rightarrow> nat list \<Rightarrow> 'a list \<Rightarrow> 'a list" where
  \<comment> \<open>\<^verbatim>\<open>comm.Bcast(buf, root)\<close>: the root's buffer is written into the buffer of every
      process that calls it; \<open>callers\<close> are the ranks that do\<close>
  "Bcast root' callers bufs =
     map (\<lambda>rank. if rank \<in> set callers then bufs ! root' else bufs ! rank) [0..<length bufs]"

definition Bcast_positions :: "nat list \<Rightarrow> rank_state list \<Rightarrow> rank_state list" where
  "Bcast_positions callers w =
     (let bufs = Bcast 0 callers (map positions w)
      in map (\<lambda>rank. (w ! rank)\<lparr>positions := bufs ! rank\<rparr>) [0..<length w])"

definition first_half :: "real \<Rightarrow> rank_state list \<Rightarrow> error + rank_state list" where
  \<comment> \<open>lines 86-106, up to and including the barrier. The call of line 104 stands inside
      \<^verbatim>\<open>if comm.rank == 0\<close>, so its callers are the ranks equal to 0.\<close>
  "first_half dt w =
     (case reduced_accelerations w of
        Inl e \<Rightarrow> Inl e
      | Inr all_accelerations \<Rightarrow>
         (case spmd (\<lambda>rank s. if rank = 0 then half_kick_drift dt all_accelerations s
                               else Inr s) w of
            Inl e \<Rightarrow> Inl e
          | Inr w' \<Rightarrow> Inr (Bcast_positions (filter (\<lambda>rank. rank = 0) [0..<length w']) w')))"

definition second_kick :: "real \<Rightarrow> vec2 list \<Rightarrow> rank_state \<Rightarrow> error + rank_state" where
  \<comment> \<open>lines 119 and 122\<close>
  "second_kick dt all_accelerations s =
     (case velocities s of
        None \<Rightarrow> Inl TypeError
      | Some v \<Rightarrow>
         (case add_scaled v (0.5 * dt) all_accelerations of
            Inl e \<Rightarrow> Inl e
          | Inr v' \<Rightarrow> Inr (s\<lparr>velocities := Some v', t := t s + dt\<rparr>)))"

definition second_half :: "real \<Rightarrow> rank_state list \<Rightarrow> error + rank_state list" where
  \<comment> \<open>lines 109-122, without the plotting\<close>
  "second_half dt w =
     (case reduced_accelerations w of
        Inl e \<Rightarrow> Inl e
      | Inr all_accelerations \<Rightarrow>
         spmd (\<lambda>rank s. if rank = 0 then second_kick dt all_accelerations s else Inr s) w)"

definition main_iteration :: "real \<Rightarrow> rank_state list \<Rightarrow> error + rank_state list" where
  \<comment> \<open>one pass of the loop body, lines 86-122, on all processes\<close>
  "main_iteration dt w =
     (case first_half dt w of Inl e \<Rightarrow> Inl e | Inr w' \<Rightarrow> second_half dt w')"

datatype outcome = Exited "rank_state list" | Hung "rank_state list" | Failed error | OutOfFuel

fun main_loop :: "nat \<Rightarrow> real \<Rightarrow> real \<Rightarrow> rank_state list \<Rightarrow> outcome" where
  \<comment> \<open>line 82: each process tests its own \<^verbatim>\<open>t <= t_end\<close>. When all have left the loop
      the run is over; when only some have, the others wait in a collective that the
      leavers never enter.\<close>
  "main_loop 0 dt t_end w = OutOfFuel"
| "main_loop (Suc fuel) dt t_end w =
     (let inside = filter (\<lambda>s. t s \<le> t_end) w
      in if inside = [] then Exited w
         else if length inside < length w then Hung w
         else (case main_iteration dt w of
                 Inl e \<Rightarrow> Failed e
               | Inr w' \<Rightarrow> main_loop fuel dt t_end w'))"

section \<open>The specification's formulas\<close>

definition owns :: "nat \<Rightarrow> nat \<Rightarrow> nat \<Rightarrow> bool" where
  \<comment> \<open>the specification's partitioner: \<^verbatim>\<open>index mod worker_count == rank\<close>\<close>
  "owns index rank worker_count = (index mod worker_count = rank)"

definition newton_term :: "vec2 \<Rightarrow> vec2 \<Rightarrow> real \<Rightarrow> vec2" where
  \<comment> \<open>\<open>G M[j] (P[j] - P[i]) / |P[j] - P[i]|\<^sup>3\<close>, a pair at zero separation skipped\<close>
  "newton_term p_i p_j mass =
     (if p_j = p_i then (0, 0)
      else vscale (G * mass / (sqrt ((fst p_j - fst p_i)\<^sup>2 + (snd p_j - snd p_i)\<^sup>2)) ^ 3)
             (fst p_j - fst p_i, snd p_j - snd p_i))"

definition newton_acceleration :: "vec2 list \<Rightarrow> real list \<Rightarrow> nat \<Rightarrow> vec2" where
  \<comment> \<open>the specification's \<open>A[i]\<close>: the sum over every \<open>j\<close> distinct from \<open>i\<close>\<close>
  "newton_acceleration P M i =
     foldl vadd (0, 0)
       (map (\<lambda>j. newton_term (P ! i) (P ! j) (M ! j)) (filter (\<lambda>j. j \<noteq> i) [0..<length P]))"

definition leapfrog_first_half :: "real \<Rightarrow> rank_state list \<Rightarrow> error + rank_state list" where
  \<comment> \<open>the specification's steps 1-5: as \<open>first_half\<close>, with the broadcast of step 4 entered
      by every process\<close>
  "leapfrog_first_half dt w =
     (case reduced_accelerations w of
        Inl e \<Rightarrow> Inl e
      | Inr all_accelerations \<Rightarrow>
         (case spmd (\<lambda>rank s. if rank = 0 then half_kick_drift dt all_accelerations s
                               else Inr s) w of
            Inl e \<Rightarrow> Inl e
          | Inr w' \<Rightarrow> Inr (Bcast_positions [0..<length w'] w')))"

definition leapfrog_iteration :: "real \<Rightarrow> rank_state list \<Rightarrow> error + rank_state list" where
  \<comment> \<open>the specification's steps 1-8\<close>
  "leapfrog_iteration dt w =
     (case leapfrog_first_half dt w of Inl e \<Rightarrow> Inl e | Inr w' \<Rightarrow> second_half dt w')"

section \<open>Auxiliary notions for the proofs\<close>

definition pair_sum :: "vec2 list \<Rightarrow> vec2 \<Rightarrow> nat \<Rightarrow> (nat \<times> real) list \<Rightarrow> vec2 \<Rightarrow> vec2" where
  \<comment> \<open>what the inner loop adds to \<open>acc\<close> for the body at \<open>p\<close> with local index \<open>i\<close>\<close>
  "pair_sum P p i jms acc =
     foldl vadd acc (map (\<lambda>(j, m). newton_term p (P ! j) m) (filter (\<lambda>(j, m). j \<noteq> i) jms))"

definition three_bodies :: "rank_state list" where
  \<comment> \<open>two processes, three bodies on the x axis, the third one moving\<close>
  "three_bodies = main_init 2 [(0, 0), (1, 0), (2, 0)] [1, 1, 1] [(0, 0), (0, 0), (60, 0)]"

definition three_bodies_at_barrier :: "rank_state list" where
  \<comment> \<open>the processes at the barrier of line 106, as the source leaves them\<close>
  "three_bodies_at_barrier = [\<lparr>positions = Some [(G / 5760, 0), (1 + G / 7200, 0), (3 - G / 28800, 0)],
           masses = Some [1, 1, 1],
           velocities = Some [(G / 96, 0), (G / 120, 0), (60 - G / 480, 0)], t = 0\<rparr>,
         \<lparr>positions = Some [(0, 0), (1, 0), (2, 0)], masses = Some [1, 1, 1],
           velocities = Some [(0, 0), (0, 0), (60, 0)], t = 0\<rparr>]"

definition three_bodies_after_broadcast :: "rank_state list" where
  \<comment> \<open>the processes at the barrier, had every process entered the broadcast\<close>
  "three_bodies_after_broadcast = [\<lparr>positions = Some [(G / 5760, 0), (1 + G / 7200, 0), (3 - G / 28800, 0)],
           masses = Some [1, 1, 1],
           velocities = Some [(G / 96, 0), (G / 120, 0), (60 - G / 480, 0)], t = 0\<rparr>,
         \<lparr>positions = Some [(G / 5760, 0), (1 + G / 7200, 0), (3 - G / 28800, 0)],
           masses = Some [1, 1, 1],
           velocities = Some [(0, 0), (0, 0), (60, 0)], t = 0\<rparr>]"

section \<open>The force kernel and the loops of \<open>calculate_accelerations\<close>\<close>


lemma distance_pos_iff: "0 < sqrt (dx\<^sup>2 + dy\<^sup>2) \<longleftrightarrow> dx \<noteq> 0 \<or> dy \<noteq> (0::real)"
  by (simp add: sum_power2_gt_zero_iff)

lemma kernel_eq: "kernel p q m acc = Inr (vadd acc (newton_term p q m))"
proof (cases "q = p")
  case True
  then show ?thesis by (simp add: kernel_def newton_term_def vadd_def)
next
  case False
  define d where "d = sqrt ((fst q - fst p)\<^sup>2 + (snd q - snd p)\<^sup>2)"
  from False have "fst q - fst p \<noteq> 0 \<or> snd q - snd p \<noteq> 0"
    by (auto simp: prod_eq_iff)
  then have dpos: "0 < d" unfolding d_def by (simp only: distance_pos_iff)
  then have d2: "d\<^sup>2 \<noteq> 0" and d0: "d \<noteq> 0" by simp_all
  have k: "kernel p q m acc =
      Inr (fst acc + G * m / d\<^sup>2 * (fst q - fst p) / d, snd acc + G * m / d\<^sup>2 * (snd q - snd p) / d)"
    using dpos d2 d0 unfolding kernel_def Let_def d_def [symmetric] checked_div_def by simp
  have n: "newton_term p q m = (G * m / d ^ 3 * (fst q - fst p), G * m / d ^ 3 * (snd q - snd p))"
    using False unfolding newton_term_def d_def [symmetric] vscale_def by simp
  show ?thesis unfolding k n vadd_def using d0
    by (simp add: power2_eq_square power3_eq_cube)
qed

lemma pair_update_eq:
  "i < length lp \<Longrightarrow> j < length P \<Longrightarrow>
   pair_update P lp i j m acc =
     Inr (if i \<noteq> j then vadd acc (newton_term (lp ! i) (P ! j) m) else acc)"
  by (simp add: pair_update_def row_def kernel_eq)

lemma inner_loop_eq:
  "i < length lp \<Longrightarrow> k + length ms \<le> length P \<Longrightarrow>
   inner_loop P lp i (enumerate k ms) acc = Inr (pair_sum P (lp ! i) i (enumerate k ms) acc)"
proof (induction ms arbitrary: k acc)
  case Nil
  then show ?case by (simp add: pair_sum_def)
next
  case (Cons m ms)
  from Cons.prems have j: "k < length P" and rest: "Suc k + length ms \<le> length P" by simp_all
  show ?case
    using Cons.IH [OF Cons.prems(1) rest] Cons.prems(1) j
    by (simp add: pair_update_eq pair_sum_def)
qed

lemma outer_loop_eq:
  "distinct js \<Longrightarrow> \<forall>i\<in>set js. i < length la \<Longrightarrow> length la = length lp \<Longrightarrow>
   length M \<le> length P \<Longrightarrow>
   outer_loop P lp M js la =
     Inr (map (\<lambda>i. if i \<in> set js then pair_sum P (lp ! i) i (enumerate 0 M) (la ! i) else la ! i)
            [0..<length la])"
proof (induction js arbitrary: la)
  case Nil
  have "map ((!) la) [0..<length la] = la" by (rule map_nth)
  then show ?case by simp
next
  case (Cons i js)
  let ?a = "pair_sum P (lp ! i) i (enumerate 0 M) (la ! i)"
  have i: "i < length lp" using Cons.prems by simp
  have inner: "inner_loop P lp i (enumerate 0 M) (la ! i) = Inr ?a"
    using inner_loop_eq [OF i, of 0 M P] Cons.prems by simp
  have ih: "outer_loop P lp M js (la[i := ?a]) =
     Inr (map (\<lambda>i'. if i' \<in> set js then pair_sum P (lp ! i') i' (enumerate 0 M) (la[i := ?a] ! i')
                     else la[i := ?a] ! i') [0..<length (la[i := ?a])])"
    using Cons.prems by (intro Cons.IH) simp_all
  have "map (\<lambda>i'. if i' \<in> set js then pair_sum P (lp ! i') i' (enumerate 0 M) (la[i := ?a] ! i')
                     else la[i := ?a] ! i') [0..<length (la[i := ?a])] =
        map (\<lambda>i'. if i' \<in> set (i # js) then pair_sum P (lp ! i') i' (enumerate 0 M) (la ! i') else la ! i')
            [0..<length la]"
  proof (rule map_cong)
    show "[0..<length (la[i := ?a])] = [0..<length la]" by simp
  next
    fix g assume "g \<in> set [0..<length la]"
    then have g: "g < length la" by simp
    show "(if g \<in> set js then pair_sum P (lp ! g) g (enumerate 0 M) (la[i := ?a] ! g)
           else la[i := ?a] ! g) =
          (if g \<in> set (i # js) then pair_sum P (lp ! g) g (enumerate 0 M) (la ! g) else la ! g)"
    proof (cases "g = i")
      case True
      then have "g \<notin> set js" using Cons.prems(1) by simp
      then show ?thesis using True g by simp
    next
      case False
      then show ?thesis by simp
    qed
  qed
  then show ?case using inner ih by simp
qed

lemma write_back_eq:
  "0 < sz \<Longrightarrow> \<forall>i\<in>set js. r + i * sz < length acc \<Longrightarrow>
   write_back r sz la js acc =
     Inr (map (\<lambda>g. if \<exists>i\<in>set js. g = r + i * sz then la ! ((g - r) div sz) else acc ! g)
            [0..<length acc])"
proof (induction js arbitrary: acc)
  case Nil
  have "map ((!) acc) [0..<length acc] = acc" by (rule map_nth)
  then show ?case by simp
next
  case (Cons i js)
  let ?acc = "acc[r + i * sz := la ! i]"
  have ih: "write_back r sz la js ?acc =
     Inr (map (\<lambda>g. if \<exists>i\<in>set js. g = r + i * sz then la ! ((g - r) div sz) else ?acc ! g)
            [0..<length ?acc])"
    using Cons.prems by (intro Cons.IH) simp_all
  have "map (\<lambda>g. if \<exists>i\<in>set js. g = r + i * sz then la ! ((g - r) div sz) else ?acc ! g)
            [0..<length ?acc] =
        map (\<lambda>g. if \<exists>i'\<in>set (i # js). g = r + i' * sz then la ! ((g - r) div sz) else acc ! g)
            [0..<length acc]"
  proof (rule map_cong)
    show "[0..<length ?acc] = [0..<length acc]" by simp
  next
    fix g assume "g \<in> set [0..<length acc]"
    then have g: "g < length acc" by simp
    show "(if \<exists>i\<in>set js. g = r + i * sz then la ! ((g - r) div sz) else ?acc ! g) =
          (if \<exists>i'\<in>set (i # js). g = r + i' * sz then la ! ((g - r) div sz) else acc ! g)"
    proof (cases "g = r + i * sz")
      case True
      have "(r + i * sz - r) div sz = i" using Cons.prems(1) by simp
      then show ?thesis using True g by simp
    next
      case False
      then show ?thesis by simp
    qed
  qed
  moreover have "r + i * sz < length acc" using Cons.prems(2) by simp
  ultimately show ?case using ih by simp
qed


lemma slice_index_in_range:
  assumes "0 < sz" "i < slice_len r N sz"
  shows "r + i * sz < N"
proof -
  from assms(2) have rN: "r < N" and i: "i \<le> (N - r - 1) div sz"
    by (auto simp: slice_len_def split: if_splits)
  have "i * sz \<le> ((N - r - 1) div sz) * sz" using i by (rule mult_le_mono1)
  also have "\<dots> \<le> N - r - 1" by simp
  finally show ?thesis using rN by linarith
qed

lemma slice_len_complete:
  assumes "0 < sz" "r \<le> g" "g < N" "(g - r) mod sz = 0"
  shows "(g - r) div sz < slice_len r N sz"
proof -
  have "g - r \<le> N - r - 1" using assms by linarith
  then have "(g - r) div sz \<le> (N - r - 1) div sz" by (rule div_le_mono)
  then show ?thesis using assms by (simp add: slice_len_def)
qed

lemma owned_iff:
  assumes "0 < sz" "g < N"
  shows "(\<exists>i\<in>set [0..<slice_len r N sz]. g = r + i * sz) \<longleftrightarrow> r \<le> g \<and> (g - r) mod sz = 0"
proof
  assume "\<exists>i\<in>set [0..<slice_len r N sz]. g = r + i * sz"
  then show "r \<le> g \<and> (g - r) mod sz = 0" by auto
next
  assume a: "r \<le> g \<and> (g - r) mod sz = 0"
  then have "(g - r) div sz < slice_len r N sz"
    using slice_len_complete [OF assms(1) _ assms(2)] by simp
  moreover have "g = r + ((g - r) div sz) * sz" using a by (simp add: mod_eq_0_iff_dvd)
  ultimately show "\<exists>i\<in>set [0..<slice_len r N sz]. g = r + i * sz" by auto
qed

lemma calculate_accelerations_eq:
  assumes sz: "0 < sz" and len: "length M \<le> length P"
  shows "calculate_accelerations r sz P M =
     Inr (map (\<lambda>g. if r \<le> g \<and> (g - r) mod sz = 0
                    then pair_sum P (P ! g) ((g - r) div sz) (enumerate 0 M) (0, 0)
                    else (0, 0)) [0..<length P])"
proof -
  define n where "n = slice_len r (length P) sz"
  define lp where "lp = strided_slice r sz P"
  define la where "la = map (\<lambda>i. pair_sum P (lp ! i) i (enumerate 0 M) (0, 0)) [0..<n]"
  have lplen: "length lp = n" by (simp add: lp_def n_def strided_slice_def)
  have lpnth: "lp ! i = P ! (r + i * sz)" if "i < n" for i
    using that by (simp add: lp_def n_def strided_slice_def)
  have "outer_loop P lp M [0..<n] (replicate n (0, 0)) =
     Inr (map (\<lambda>i. if i \<in> set [0..<n]
                    then pair_sum P (lp ! i) i (enumerate 0 M) (replicate n (0, 0) ! i)
                    else replicate n (0, 0) ! i) [0..<length (replicate n (0::real, 0::real))])"
    by (rule outer_loop_eq) (simp_all add: lplen len)
  also have "map (\<lambda>i. if i \<in> set [0..<n]
                    then pair_sum P (lp ! i) i (enumerate 0 M) (replicate n (0, 0) ! i)
                    else replicate n (0, 0) ! i) [0..<length (replicate n (0::real, 0::real))] = la"
    unfolding la_def by (rule map_cong) simp_all
  finally have outer: "outer_loop P lp M [0..<n] (replicate n (0, 0)) = Inr la" .
  have inrange: "\<forall>i\<in>set [0..<n]. r + i * sz < length (replicate (length P) (0::real, 0::real))"
    using slice_index_in_range [OF sz] by (simp add: n_def)
  have wb: "write_back r sz la [0..<n] (replicate (length P) (0, 0)) =
     Inr (map (\<lambda>g. if \<exists>i\<in>set [0..<n]. g = r + i * sz then la ! ((g - r) div sz)
                    else replicate (length P) (0, 0) ! g)
            [0..<length (replicate (length P) (0::real, 0::real))])"
    by (rule write_back_eq [OF sz inrange])
  have "map (\<lambda>g. if \<exists>i\<in>set [0..<n]. g = r + i * sz then la ! ((g - r) div sz)
                    else replicate (length P) (0, 0) ! g)
            [0..<length (replicate (length P) (0::real, 0::real))] =
        map (\<lambda>g. if r \<le> g \<and> (g - r) mod sz = 0
                    then pair_sum P (P ! g) ((g - r) div sz) (enumerate 0 M) (0, 0)
                    else (0, 0)) [0..<length P]"
  proof (rule map_cong)
    show "[0..<length (replicate (length P) (0::real, 0::real))] = [0..<length P]" by simp
  next
    fix g assume "g \<in> set [0..<length P]"
    then have g: "g < length P" by simp
    show "(if \<exists>i\<in>set [0..<n]. g = r + i * sz then la ! ((g - r) div sz)
           else replicate (length P) (0, 0) ! g) =
          (if r \<le> g \<and> (g - r) mod sz = 0
           then pair_sum P (P ! g) ((g - r) div sz) (enumerate 0 M) (0, 0) else (0, 0))"
    proof (cases "r \<le> g \<and> (g - r) mod sz = 0")
      case True
      then have ex: "\<exists>i\<in>set [0..<n]. g = r + i * sz"
        using owned_iff [OF sz g, of r] by (simp add: n_def)
      have i: "(g - r) div sz < n"
        using slice_len_complete [OF sz _ g] True by (simp add: n_def)
      have geq: "r + ((g - r) div sz) * sz = g" using True by (simp add: mod_eq_0_iff_dvd)
      have "la ! ((g - r) div sz) = pair_sum P (P ! g) ((g - r) div sz) (enumerate 0 M) (0, 0)"
        using i by (simp add: la_def lpnth geq)
      then show ?thesis using True ex by simp
    next
      case False
      then have "\<not> (\<exists>i\<in>set [0..<n]. g = r + i * sz)"
        using owned_iff [OF sz g, of r] by (simp add: n_def)
      then show ?thesis using False g by auto
    qed
  qed
  then have wb': "write_back r sz la [0..<n] (replicate (length P) (0, 0)) =
      Inr (map (\<lambda>g. if r \<le> g \<and> (g - r) mod sz = 0
                    then pair_sum P (P ! g) ((g - r) div sz) (enumerate 0 M) (0, 0)
                    else (0, 0)) [0..<length P])"
    using wb by simp
  show ?thesis
    using sz outer wb'
    by (simp add: calculate_accelerations_def Let_def lp_def [symmetric] lplen)
qed

lemma enumerate_filter_map:
  "map (\<lambda>(j, m). f j m) (filter (\<lambda>(j, m). Q j) (enumerate k ms)) =
   map (\<lambda>j. f j (ms ! (j - k))) (filter Q [k..<k + length ms])"
proof (induction ms arbitrary: k)
  case Nil
  then show ?case by simp
next
  case (Cons m ms)
  have "[k..<Suc (k + length ms)] = k # [Suc k..<Suc (k + length ms)]"
    by (rule upt_conv_Cons) simp
  then have "[k..<k + length (m # ms)] = k # [Suc k..<Suc k + length ms]"
    by simp
  moreover have "map (\<lambda>j. f j ((m # ms) ! (j - k))) (filter Q [Suc k..<Suc k + length ms]) =
                 map (\<lambda>j. f j (ms ! (j - Suc k))) (filter Q [Suc k..<Suc k + length ms])"
  proof (rule map_cong)
    fix j assume "j \<in> set (filter Q [Suc k..<Suc k + length ms])"
    then have "j \<in> set [Suc k..<Suc k + length ms]" by (simp only: set_filter mem_Collect_eq)
    then have "Suc k \<le> j" by (simp only: set_upt atLeastLessThan_iff)
    then have "j - k = Suc (j - Suc k)" by linarith
    then show "f j ((m # ms) ! (j - k)) = f j (ms ! (j - Suc k))" by simp
  qed simp
  ultimately show ?case using Cons.IH [of "Suc k"] by simp
qed

lemma pair_sum_newton:
  "length M = length P \<Longrightarrow>
   pair_sum P (P ! g) g (enumerate 0 M) (0, 0) = newton_acceleration P M g"
  using enumerate_filter_map [of "\<lambda>j m. newton_term (P ! g) (P ! j) m" "\<lambda>j. j \<noteq> g" 0 M]
  by (simp add: pair_sum_def newton_acceleration_def)

lemma single_process_newton:
  assumes "length M = length P"
  shows "calculate_accelerations 0 1 P M = Inr (map (newton_acceleration P M) [0..<length P])"
proof -
  have "calculate_accelerations 0 1 P M =
     Inr (map (\<lambda>g. if 0 \<le> g \<and> (g - 0) mod 1 = 0
                    then pair_sum P (P ! g) ((g - 0) div 1) (enumerate 0 M) (0, 0)
                    else (0, 0)) [0..<length P])"
    by (rule calculate_accelerations_eq) (simp_all add: assms)
  then show ?thesis using assms by (simp add: pair_sum_newton)
qed

lemma newton_term_antisym:
  "vscale m_i (newton_term p q m_j) = vscale (- m_j) (newton_term q p m_i)"
proof (cases "q = p")
  case True
  then show ?thesis by (simp add: newton_term_def vscale_def)
next
  case False
  define k where "k = inverse ((sqrt ((fst q - fst p)\<^sup>2 + (snd q - snd p)\<^sup>2)) ^ 3)"
  have sym: "sqrt ((fst p - fst q)\<^sup>2 + (snd p - snd q)\<^sup>2) =
             sqrt ((fst q - fst p)\<^sup>2 + (snd q - snd p)\<^sup>2)"
    by (simp add: power2_commute)
  from False have ne: "p \<noteq> q" by auto
  have n1: "newton_term p q m_j = (G * m_j * k * (fst q - fst p), G * m_j * k * (snd q - snd p))"
    using False by (simp add: newton_term_def vscale_def k_def divide_inverse)
  have n2: "newton_term q p m_i = (G * m_i * k * (fst p - fst q), G * m_i * k * (snd p - snd q))"
    using ne by (simp add: newton_term_def vscale_def k_def sym divide_inverse)
  show ?thesis unfolding n1 n2 vscale_def by (simp add: algebra_simps)
qed

lemmas accel_eval = calculate_accelerations_def strided_slice_def slice_len_def pair_update_def
  row_def kernel_def enumerate_eq_zip upt_rec checked_div_def

lemmas world_eval = main_init_def broadcast_initial_def initial_conditions_def bcast_def
  local_accelerations_def reduced_accelerations_def vadd_def

lemmas newton_eval = newton_acceleration_def newton_term_def vadd_def vscale_def upt_rec

lemma G_pos: "0 < G"
  by (simp add: G_def)

section \<open>Newton's third law\<close>

lemma kernel_antisymmetric:
  "\<exists>a b. kernel p_i p_j m_j (0, 0) = Inr a \<and> kernel p_j p_i m_i (0, 0) = Inr b \<and>
          m_i * fst a = - (m_j * fst b) \<and> m_i * snd a = - (m_j * snd b)"
proof -
  have a: "kernel p_i p_j m_j (0, 0) = Inr (newton_term p_i p_j m_j)"
    by (simp add: kernel_eq vadd_def)
  have b: "kernel p_j p_i m_i (0, 0) = Inr (newton_term p_j p_i m_i)"
    by (simp add: kernel_eq vadd_def)
  have "vscale m_i (newton_term p_i p_j m_j) = vscale (- m_j) (newton_term p_j p_i m_i)"
    by (rule newton_term_antisym)
  then have "m_i * fst (newton_term p_i p_j m_j) = - (m_j * fst (newton_term p_j p_i m_i))"
    and "m_i * snd (newton_term p_i p_j m_j) = - (m_j * snd (newton_term p_j p_i m_i))"
    by (simp_all add: vscale_def)
  then show ?thesis using a b by blast
qed

text \<open>
  Claim C7. For two distinct bodies \<open>i\<close> and \<open>j\<close> at distinct positions the claim has
  \<open>mass[i] * a\<close> equal to \<open>- mass[j] * b\<close>, where \<open>a\<close> is what the loop of lines 28-37 adds to
  body \<open>i\<close> for body \<open>j\<close> and \<open>b\<close> what it adds to body \<open>j\<close> for body \<open>i\<close>. The arithmetic of
  lines 31-37 is antisymmetric (lemma \<open>kernel_antisymmetric\<close>), but the test of line 30 lets
  only one direction reach it. With two processes, body 0 of mass 3 at \<open>(0, 0)\<close> and body 1 of
  mass 5 at \<open>(1, 0)\<close>: rank 0 adds \<open>(5 G, 0)\<close> to body 0 for body 1, and rank 1, where body 1
  has local index 0, adds nothing to body 1 for body 0. So \<open>mass[0] * a = 15 G\<close> and
  \<open>- mass[1] * b = 0\<close>.
\<close>

theorem third_law_broken_across_processes:
  "pair_update [(0, 0), (1, 0)] (strided_slice 0 2 [(0, 0), (1, 0)]) 0 1 5 (0, 0) = Inr (5 * G, 0) \<and>
   pair_update [(0, 0), (1, 0)] (strided_slice 1 2 [(0, 0), (1, 0)]) 0 0 3 (0, 0) = Inr (0, 0) \<and>
   calculate_accelerations 0 2 [(0, 0), (1, 0)] [3, 5] = Inr [(5 * G, 0), (0, 0)] \<and>
   calculate_accelerations 1 2 [(0, 0), (1, 0)] [3, 5] = Inr [(0, 0), (0, 0)] \<and>
   3 * (5 * G) \<noteq> - (5 * (0 :: real))"
proof -
  have "pair_update [(0, 0), (1, 0)] (strided_slice 0 2 [(0, 0), (1, 0)]) 0 1 5 (0, 0) =
      Inr (5 * G, 0)"
    by (simp add: accel_eval)
  moreover have
    "pair_update [(0, 0), (1, 0)] (strided_slice 1 2 [(0, 0), (1, 0)]) 0 0 3 (0, 0) = Inr (0, 0)"
    by (simp add: accel_eval)
  moreover have "calculate_accelerations 0 2 [(0, 0), (1, 0)] [3, 5] = Inr [(5 * G, 0), (0, 0)]"
    by (simp add: accel_eval)
  moreover have "calculate_accelerations 1 2 [(0, 0), (1, 0)] [3, 5] = Inr [(0, 0), (0, 0)]"
    by (simp add: accel_eval)
  moreover have "3 * (5 * G) \<noteq> - (5 * (0 :: real))" using G_pos by simp
  ultimately show ?thesis by blast
qed

section \<open>The local index is compared with the global index\<close>

text \<open>
  Claim C1. The specification's \<open>A[i]\<close> sums over every \<open>j\<close> distinct from the owned global
  index \<open>i\<close>. Line 30 compares the index \<open>i\<close> into the local slice with the global index
  \<open>j\<close>. With two processes, rank 1 owns body 1 as local index 0 and so skips body 0: for
  two bodies at \<open>(0, 0)\<close> and \<open>(1, 0)\<close> with unit masses it returns zero for body 1, where
  the formula gives \<open>(- G, 0)\<close>.
\<close>

theorem local_index_compared_with_global_index:
  "calculate_accelerations 1 2 [(0, 0), (1, 0)] [1, 1] = Inr [(0, 0), (0, 0)] \<and>
   owns 1 1 2 \<and>
   newton_acceleration [(0, 0), (1, 0)] [1, 1] 1 = (- G, 0) \<and>
   (- G, 0) \<noteq> (0, 0 :: real)"
proof -
  have "calculate_accelerations 1 2 [(0, 0), (1, 0)] [1, 1] = Inr [(0, 0), (0, 0)]"
    by (simp add: accel_eval)
  moreover have "newton_acceleration [(0, 0), (1, 0)] [1, 1] 1 = (- G, 0)"
    by (simp add: newton_eval)
  moreover have "owns 1 1 2" by (simp add: owns_def)
  moreover have "(- G, 0) \<noteq> (0, 0 :: real)" using G_pos by simp
  ultimately show ?thesis by blast
qed

text \<open>
  Claim C6. The reduced acceleration array depends on the number of processes: for the two
  bodies above, one process yields \<open>[(G, 0), (- G, 0)]\<close> and two processes yield
  \<open>[(G, 0), (0, 0)]\<close>.
\<close>

theorem reduction_depends_on_worker_count:
  "reduced_accelerations (main_init 1 [(0, 0), (1, 0)] [1, 1] [(0, 0), (0, 0)]) =
     Inr [(G, 0), (- G, 0)] \<and>
   reduced_accelerations (main_init 2 [(0, 0), (1, 0)] [1, 1] [(0, 0), (0, 0)]) =
     Inr [(G, 0), (0, 0)] \<and>
   [(G, 0), (- G, 0)] \<noteq> [(G, 0), (0, 0 :: real)]"
proof -
  have "reduced_accelerations (main_init 1 [(0, 0), (1, 0)] [1, 1] [(0, 0), (0, 0)]) =
     Inr [(G, 0), (- G, 0)]"
    by (simp add: world_eval accel_eval)
  moreover have "reduced_accelerations (main_init 2 [(0, 0), (1, 0)] [1, 1] [(0, 0), (0, 0)]) =
     Inr [(G, 0), (0, 0)]"
    by (simp add: world_eval accel_eval)
  moreover have "[(G, 0), (- G, 0)] \<noteq> [(G, 0), (0, 0 :: real)]" using G_pos by simp
  ultimately show ?thesis by blast
qed

text \<open>
  Claim C9. Bodies 1 and 2 coincide at \<open>(0, 0)\<close>, body 0 is a third body at \<open>(1, 0)\<close>. With two
  processes, rank 1 owns body 1 as local index 0; the pairs with bodies 1 and 2 are skipped
  at zero separation without a fault, but the third body 0 is skipped as well (by line 30),
  so body 1 receives zero acceleration where the formula gives \<open>(G, 0)\<close>.
\<close>

theorem coincident_pair_third_body_dropped:
  "calculate_accelerations 1 2 [(1, 0), (0, 0), (0, 0)] [1, 1, 1] = Inr [(0, 0), (0, 0), (0, 0)] \<and>
   newton_acceleration [(1, 0), (0, 0), (0, 0)] [1, 1, 1] 1 = (G, 0) \<and>
   reduced_accelerations (main_init 2 [(1, 0), (0, 0), (0, 0)] [1, 1, 1] [(0, 0), (0, 0), (0, 0)]) =
     Inr [(- 2 * G, 0), (0, 0), (G, 0)] \<and>
   (G, 0) \<noteq> (0, 0 :: real)"
proof -
  have "calculate_accelerations 1 2 [(1, 0), (0, 0), (0, 0)] [1, 1, 1] =
     Inr [(0, 0), (0, 0), (0, 0)]"
    by (simp add: accel_eval)
  moreover have "newton_acceleration [(1, 0), (0, 0), (0, 0)] [1, 1, 1] 1 = (G, 0)"
    by (simp add: newton_eval)
  moreover have "reduced_accelerations
      (main_init 2 [(1, 0), (0, 0), (0, 0)] [1, 1, 1] [(0, 0), (0, 0), (0, 0)]) =
     Inr [(- 2 * G, 0), (0, 0), (G, 0)]"
    by (simp add: world_eval accel_eval)
  moreover have "(G, 0) \<noteq> (0, 0 :: real)" using G_pos by simp
  ultimately show ?thesis by blast
qed

section \<open>No division by zero\<close>

lemma kernel_self: "kernel p p m acc = Inr acc"
  by (simp add: kernel_eq newton_term_def vadd_def)

lemma pair_update_no_zero_division: "pair_update P lp i j m acc \<noteq> Inl ZeroDivisionError"
  by (simp add: pair_update_def row_def kernel_eq)

lemma inner_loop_no_zero_division: "inner_loop P lp i jms acc \<noteq> Inl ZeroDivisionError"
proof (induction jms arbitrary: acc)
  case Nil
  then show ?case by simp
next
  case (Cons jm jms)
  obtain j m where jm: "jm = (j, m)" by (cases jm)
  show ?case
    using Cons.IH pair_update_no_zero_division [of P lp i j m acc]
    by (cases "pair_update P lp i j m acc") (auto simp: jm)
qed

lemma outer_loop_no_zero_division: "outer_loop P lp M js la \<noteq> Inl ZeroDivisionError"
proof (induction js arbitrary: la)
  case Nil
  then show ?case by simp
next
  case (Cons i js)
  show ?case
    using Cons.IH inner_loop_no_zero_division [of P lp i "enumerate 0 M" "la ! i"]
    by (cases "inner_loop P lp i (enumerate 0 M) (la ! i)") auto
qed

lemma write_back_no_zero_division: "write_back r sz la js acc \<noteq> Inl ZeroDivisionError"
  by (induction js arbitrary: acc) auto

lemma calculate_accelerations_no_zero_division:
  "calculate_accelerations r sz P M \<noteq> Inl ZeroDivisionError"
proof (cases "outer_loop P (strided_slice r sz P) M [0..<length (strided_slice r sz P)]
                (replicate (length (strided_slice r sz P)) (0, 0))")
  case (Inl e)
  then have "e \<noteq> ZeroDivisionError" using outer_loop_no_zero_division by metis
  then show ?thesis using Inl by (simp add: calculate_accelerations_def Let_def)
next
  case (Inr la)
  then show ?thesis
    using write_back_no_zero_division by (simp add: calculate_accelerations_def Let_def)
qed

lemma self_pair_skipped:
  assumes sz: "0 < sz" and i: "i < length (strided_slice r sz P)"
  shows "r + i * sz < length P"
    and "strided_slice r sz P ! i = P ! (r + i * sz)"
    and "pair_update P (strided_slice r sz P) i (r + i * sz) m acc = Inr acc"
proof -
  from i have i': "i < slice_len r (length P) sz" by (simp add: strided_slice_def)
  show g: "r + i * sz < length P" by (rule slice_index_in_range [OF sz i'])
  show nth: "strided_slice r sz P ! i = P ! (r + i * sz)"
    using i' by (simp add: strided_slice_def)
  show "pair_update P (strided_slice r sz P) i (r + i * sz) m acc = Inr acc"
    using i g nth by (simp add: pair_update_def row_def kernel_self)
qed

text \<open>
  Claim C10. For a positive number of processes and a mass array no longer than the
  position array (the docstring gives both the same length \<open>n\<close>),
  \<open>calculate_accelerations\<close> returns an array of the length of \<open>positions\<close>. For every
  local index \<open>i\<close> the global index \<open>rank + i * size\<close> lies in range, the local body is the
  body at that global index, and the loop pair of \<open>i\<close> with that index leaves the
  accumulator unchanged: no body acts on itself. The kernel always returns a value, its
  divisions being guarded by \<open>distance > 0\<close>, and no call of \<open>calculate_accelerations\<close>, on
  any input whatever, divides by zero.
\<close>

theorem calculate_accelerations_total:
  assumes "0 < size'" and "length M \<le> length P"
  shows "(\<exists>A. calculate_accelerations rank size' P M = Inr A \<and> length A = length P) \<and>
         (\<forall>i m acc. i < length (strided_slice rank size' P) \<longrightarrow>
            rank + i * size' < length P \<and>
            strided_slice rank size' P ! i = P ! (rank + i * size') \<and>
            pair_update P (strided_slice rank size' P) i (rank + i * size') m acc = Inr acc) \<and>
         (\<forall>p q m acc. \<exists>a. kernel p q m acc = Inr a) \<and>
         (\<forall>r s Q N. calculate_accelerations r s Q N \<noteq> Inl ZeroDivisionError)"
proof -
  have "\<exists>A. calculate_accelerations rank size' P M = Inr A \<and> length A = length P"
    using calculate_accelerations_eq [OF assms, of rank] by simp
  moreover have "\<forall>i m acc. i < length (strided_slice rank size' P) \<longrightarrow>
            rank + i * size' < length P \<and>
            strided_slice rank size' P ! i = P ! (rank + i * size') \<and>
            pair_update P (strided_slice rank size' P) i (rank + i * size') m acc = Inr acc"
    using self_pair_skipped [OF assms(1)] by blast
  moreover have "\<forall>p q m acc. \<exists>a. kernel p q m acc = Inr a"
    by (simp add: kernel_eq)
  moreover have "\<forall>r s Q N. calculate_accelerations r s Q N \<noteq> Inl ZeroDivisionError"
    by (simp add: calculate_accelerations_no_zero_division)
  ultimately show ?thesis by blast
qed

theorem calculate_accelerations_total_witness:
  "(\<exists>A. calculate_accelerations 1 2 [(0, 0), (1, 0), (1, 0)] [1, 1, 1] = Inr A \<and> length A = 3) \<and>
   strided_slice 1 2 ([(0, 0), (1, 0), (1, 0)] :: vec2 list) ! 0 = (1, 0) \<and>
   pair_update [(0, 0), (1, 0), (1, 0)] (strided_slice 1 2 [(0, 0), (1, 0), (1, 0)]) 0 1 5 (7, 8) =
     Inr (7, 8)"
proof -
  define P :: "vec2 list" where "P = [(0, 0), (1, 0), (1, 0)]"
  define M :: "real list" where "M = [1, 1, 1]"
  have len: "0 < length (strided_slice 1 2 P)"
    by (simp add: P_def strided_slice_def slice_len_def)
  have "(0::nat) < 2" and "length M \<le> length P"
    by (simp_all add: P_def M_def)
  note total = calculate_accelerations_total [OF this, where rank = 1]
  have "\<exists>A. calculate_accelerations 1 2 P M = Inr A \<and> length A = length P"
    by (rule total [THEN conjunct1])
  moreover have "length P = 3" by (simp add: P_def)
  ultimately have first: "\<exists>A. calculate_accelerations 1 2 P M = Inr A \<and> length A = 3"
    by simp
  have "strided_slice 1 2 P ! 0 = P ! (1 + 0 * 2) \<and>
     pair_update P (strided_slice 1 2 P) 0 (1 + 0 * 2) 5 (7, 8) = Inr (7, 8)"
    using total [THEN conjunct2, THEN conjunct1, rule_format, OF len, of 5 "(7, 8)"]
    by (rule conjunct2)
  then have "strided_slice 1 2 P ! 0 = (1, 0) \<and>
     pair_update P (strided_slice 1 2 P) 0 1 5 (7, 8) = Inr (7, 8)"
    by (simp add: P_def)
  then show ?thesis using first unfolding P_def M_def by simp
qed

section \<open>Striped ownership\<close>

lemma owns_iff_offset:
  assumes "r < sz"
  shows "owns g r sz \<longleftrightarrow> r \<le> g \<and> (g - r) mod sz = 0"
proof
  assume "owns g r sz"
  then have m: "g mod sz = r" by (simp add: owns_def)
  then have le: "r \<le> g" using mod_less_eq_dividend [of g sz] by simp
  have "g = sz * (g div sz) + r" using m by (metis mult_div_mod_eq)
  then have "g - r = sz * (g div sz)" by linarith
  then show "r \<le> g \<and> (g - r) mod sz = 0" using le by simp
next
  assume a: "r \<le> g \<and> (g - r) mod sz = 0"
  then obtain k where "g - r = sz * k" by (auto simp: mod_eq_0_iff_dvd)
  then have "g = r + k * sz" using a by (simp add: mult.commute)
  then show "owns g r sz" using assms by (simp add: owns_def)
qed

lemma owned_div:
  assumes "r < sz" "owns g r sz"
  shows "(g - r) div sz = g div sz"
proof -
  from assms(2) have m: "g mod sz = r" by (simp add: owns_def)
  have "g = sz * (g div sz) + r" using m by (metis mult_div_mod_eq)
  then have "g - r = sz * (g div sz)" by linarith
  then show ?thesis using assms(1) by simp
qed

lemma local_indices_eq_filter:
  assumes sz: "0 < sz" and r: "r < sz"
  shows "map (\<lambda>i. r + i * sz) [0..<slice_len r N sz] = filter (\<lambda>g. owns g r sz) [0..<N]"
proof (rule sorted_distinct_set_unique)
  show "sorted (map (\<lambda>i. r + i * sz) [0..<slice_len r N sz])"
    by (simp add: sorted_map sorted_wrt_iff_nth_less)
  show "distinct (map (\<lambda>i. r + i * sz) [0..<slice_len r N sz])"
    using sz by (simp add: distinct_map inj_on_def)
  show "sorted (filter (\<lambda>g. owns g r sz) [0..<N])" by (simp add: sorted_wrt_filter)
  show "distinct (filter (\<lambda>g. owns g r sz) [0..<N])" by simp
  show "set (map (\<lambda>i. r + i * sz) [0..<slice_len r N sz]) =
        set (filter (\<lambda>g. owns g r sz) [0..<N])"
  proof (rule set_eqI)
    fix g
    show "g \<in> set (map (\<lambda>i. r + i * sz) [0..<slice_len r N sz]) \<longleftrightarrow>
          g \<in> set (filter (\<lambda>g. owns g r sz) [0..<N])"
    proof (cases "g < N")
      case True
      have "g \<in> set (map (\<lambda>i. r + i * sz) [0..<slice_len r N sz]) \<longleftrightarrow>
            (\<exists>i\<in>set [0..<slice_len r N sz]. g = r + i * sz)"
        by auto
      also have "\<dots> \<longleftrightarrow> r \<le> g \<and> (g - r) mod sz = 0" by (rule owned_iff [OF sz True])
      also have "\<dots> \<longleftrightarrow> owns g r sz" by (rule owns_iff_offset [OF r, symmetric])
      finally show ?thesis using True by simp
    next
      case False
      have "g \<notin> set (map (\<lambda>i. r + i * sz) [0..<slice_len r N sz])"
      proof
        assume "g \<in> set (map (\<lambda>i. r + i * sz) [0..<slice_len r N sz])"
        then obtain i where "i < slice_len r N sz" "g = r + i * sz" by auto
        then have "g < N" using slice_index_in_range [OF sz] by simp
        then show False using False by simp
      qed
      then show ?thesis using False by simp
    qed
  qed
qed

lemma strided_slice_eq_filter:
  assumes "0 < sz" "r < sz"
  shows "strided_slice r sz xs = map ((!) xs) (filter (\<lambda>g. owns g r sz) [0..<length xs])"
proof -
  have "strided_slice r sz xs = map ((!) xs) (map (\<lambda>i. r + i * sz) [0..<slice_len r (length xs) sz])"
    by (simp add: strided_slice_def comp_def)
  then show ?thesis by (simp only: local_indices_eq_filter [OF assms])
qed

lemma write_back_owned:
  assumes sz: "0 < sz" and r: "r < sz" and len: "length la = length (strided_slice r sz xs)"
  shows "write_back r sz la [0..<length la] (replicate (length xs) z) =
     Inr (map (\<lambda>g. if owns g r sz then la ! (g div sz) else z) [0..<length xs])"
proof -
  define n where "n = slice_len r (length xs) sz"
  have n: "length la = n" using len by (simp add: strided_slice_def n_def)
  have inrange: "\<forall>i\<in>set [0..<n]. r + i * sz < length (replicate (length xs) z)"
    using slice_index_in_range [OF sz] by (simp add: n_def)
  have wb: "write_back r sz la [0..<n] (replicate (length xs) z) =
     Inr (map (\<lambda>g. if \<exists>i\<in>set [0..<n]. g = r + i * sz then la ! ((g - r) div sz)
                    else replicate (length xs) z ! g)
            [0..<length (replicate (length xs) z)])"
    by (rule write_back_eq [OF sz inrange])
  have "map (\<lambda>g. if \<exists>i\<in>set [0..<n]. g = r + i * sz then la ! ((g - r) div sz)
                    else replicate (length xs) z ! g)
            [0..<length (replicate (length xs) z)] =
        map (\<lambda>g. if owns g r sz then la ! (g div sz) else z) [0..<length xs]"
  proof (rule map_cong)
    show "[0..<length (replicate (length xs) z)] = [0..<length xs]" by simp
  next
    fix g assume "g \<in> set [0..<length xs]"
    then have g: "g < length xs" by simp
    have iff: "(\<exists>i\<in>set [0..<n]. g = r + i * sz) \<longleftrightarrow> owns g r sz"
      using owned_iff [OF sz g, of r] owns_iff_offset [OF r, of g] by (simp add: n_def)
    show "(if \<exists>i\<in>set [0..<n]. g = r + i * sz then la ! ((g - r) div sz)
           else replicate (length xs) z ! g) =
          (if owns g r sz then la ! (g div sz) else z)"
    proof (cases "owns g r sz")
      case True
      then show ?thesis using iff owned_div [OF r True] by simp
    next
      case False
      then show ?thesis using iff g by simp
    qed
  qed
  then show ?thesis using wb n by simp
qed

text \<open>
  Claim C5. For \<open>N\<close> bodies and a positive number of processes, every index below \<open>N\<close> is
  owned by exactly one rank below the number of processes: the owned sets of the ranks cover
  the indices below \<open>N\<close> and the owned sets of two different ranks are disjoint. The slice
  \<^verbatim>\<open>positions[rank::size]\<close> holds exactly the rows that the rank owns, in order, and the
  write-back of lines 40-41 puts the local row \<open>g div size\<close> at every owned index \<open>g\<close> and
  leaves zero at every other index.
\<close>

theorem striped_partition:
  assumes "0 < size'"
  shows "(\<forall>i<N. \<exists>!r. r < size' \<and> owns i r size') \<and>
         (\<Union>r<size'. {i. i < N \<and> owns i r size'}) = {i. i < N} \<and>
         (\<forall>r r'. r \<noteq> r' \<longrightarrow> {i. owns i r size'} \<inter> {i. owns i r' size'} = {}) \<and>
         (\<forall>r<size'. \<forall>xs :: vec2 list. length xs = N \<longrightarrow>
            strided_slice r size' xs = map ((!) xs) (filter (\<lambda>g. owns g r size') [0..<N])) \<and>
         (\<forall>r<size'. \<forall>(xs :: vec2 list) la. length xs = N \<longrightarrow>
            length la = length (strided_slice r size' xs) \<longrightarrow>
            write_back r size' la [0..<length la] (replicate N (0, 0)) =
              Inr (map (\<lambda>g. if owns g r size' then la ! (g div size') else (0, 0)) [0..<N]))"
proof -
  have "\<forall>i<N. \<exists>!r. r < size' \<and> owns i r size'"
    using assms by (auto simp: owns_def)
  moreover have "(\<Union>r<size'. {i. i < N \<and> owns i r size'}) = {i. i < N}"
    using assms by (auto simp: owns_def)
  moreover have "\<forall>r r'. r \<noteq> r' \<longrightarrow> {i. owns i r size'} \<inter> {i. owns i r' size'} = {}"
    by (auto simp: owns_def)
  moreover have "\<forall>r<size'. \<forall>xs :: vec2 list. length xs = N \<longrightarrow>
            strided_slice r size' xs = map ((!) xs) (filter (\<lambda>g. owns g r size') [0..<N])"
    using strided_slice_eq_filter [OF assms] by auto
  moreover have "\<forall>r<size'. \<forall>(xs :: vec2 list) la. length xs = N \<longrightarrow>
            length la = length (strided_slice r size' xs) \<longrightarrow>
            write_back r size' la [0..<length la] (replicate N (0, 0)) =
              Inr (map (\<lambda>g. if owns g r size' then la ! (g div size') else (0, 0)) [0..<N])"
  proof (intro allI impI)
    fix r and xs :: "vec2 list" and la :: "vec2 list"
    assume r: "r < size'" and xs: "length xs = N"
      and la: "length la = length (strided_slice r size' xs)"
    show "write_back r size' la [0..<length la] (replicate N (0, 0)) =
              Inr (map (\<lambda>g. if owns g r size' then la ! (g div size') else (0, 0)) [0..<N])"
      unfolding xs [symmetric] by (rule write_back_owned [OF assms r la])
  qed
  ultimately show ?thesis by blast
qed


theorem striped_partition_witness:
  "(\<exists>!r. r < 2 \<and> owns 2 r 2) \<and>
   strided_slice 1 2 [(0, 0), (1, 0), (2, 0), (3, 0) :: vec2] = [(1, 0), (3, 0)] \<and>
   write_back 1 2 [(5, 6), (7, 8)] [0..<2] (replicate 4 (0, 0)) =
     Inr [(0, 0), (5, 6), (0, 0), (7, 8)]"
proof -
  define xs :: "vec2 list" where "xs = [(0, 0), (1, 0), (2, 0), (3, 0)]"
  define la :: "vec2 list" where "la = [(5, 6), (7, 8)]"
  have sz: "(0::nat) < 2" and r: "(1::nat) < 2" and i: "(2::nat) < 4" by simp_all
  have xs: "length xs = 4" by (simp add: xs_def)
  have la: "length la = length (strided_slice 1 2 xs)"
    by (simp add: la_def xs_def strided_slice_def slice_len_def)
  note part = striped_partition [OF sz, where N = 4]
  have f: "[0..<4] = [0, 1, 2, 3]" by (simp add: upt_rec)
  have f2: "length la = 2" by (simp add: la_def)
  have a: "\<exists>!r. r < 2 \<and> owns 2 r 2"
    using part [THEN conjunct1, rule_format, OF i] .
  have "strided_slice 1 2 xs = map ((!) xs) (filter (\<lambda>g. owns g 1 2) [0..<4])"
    using part [THEN conjunct2, THEN conjunct2, THEN conjunct2, THEN conjunct1, rule_format, OF r xs] .
  then have b: "strided_slice 1 2 xs = [(1, 0), (3, 0)]"
    by (simp add: f owns_def xs_def)
  have "write_back 1 2 la [0..<length la] (replicate 4 (0, 0)) =
              Inr (map (\<lambda>g. if owns g 1 2 then la ! (g div 2) else (0, 0)) [0..<4])"
    using part [THEN conjunct2, THEN conjunct2, THEN conjunct2, THEN conjunct2, rule_format, OF r xs la] .
  then have c: "write_back 1 2 la [0..<2] (replicate 4 (0, 0)) = Inr [(0, 0), (5, 6), (0, 0), (7, 8)]"
    unfolding f2 by (simp add: f owns_def la_def)
  show ?thesis using a b c unfolding xs_def la_def by simp
qed

section \<open>The processes in the main loop\<close>

lemma collect_Inr:
  "collect rs = Inr xs \<Longrightarrow> length xs = length rs \<and> (\<forall>k<length rs. rs ! k = Inr (xs ! k))"
proof (induction rs arbitrary: xs rule: collect.induct)
  case 1
  then show ?case by simp
next
  case (2 e rs)
  then show ?case by simp
next
  case (3 x rs)
  from "3.prems" obtain ys where ys: "collect rs = Inr ys" and xs: "xs = x # ys"
    by (auto split: sum.splits)
  from "3.IH" [OF ys] show ?case by (auto simp: xs nth_Cons split: nat.splits)
qed

lemma spmd_Inr:
  assumes "spmd f w = Inr w'"
  shows "length w' = length w" and "\<And>r. r < length w \<Longrightarrow> f r (w ! r) = Inr (w' ! r)"
proof -
  from collect_Inr [OF assms [unfolded spmd_def]]
  have l: "length w' = length (map (\<lambda>rank. f rank (w ! rank)) [0..<length w])"
    and n: "\<forall>k<length (map (\<lambda>rank. f rank (w ! rank)) [0..<length w]).
              map (\<lambda>rank. f rank (w ! rank)) [0..<length w] ! k = Inr (w' ! k)"
    by blast+
  show "length w' = length w" using l by simp
  fix r assume "r < length w"
  then show "f r (w ! r) = Inr (w' ! r)" using n by simp
qed

lemma spmd_rank0_only:
  assumes "spmd (\<lambda>rank s. if rank = 0 then f s else Inr s) w = Inr w'"
  shows "length w' = length w"
    and "\<And>r. 0 < r \<Longrightarrow> r < length w \<Longrightarrow> w' ! r = w ! r"
    and "0 < length w \<Longrightarrow> f (w ! 0) = Inr (w' ! 0)"
proof -
  show "length w' = length w" by (rule spmd_Inr(1) [OF assms])
  show "w' ! r = w ! r" if "0 < r" "r < length w" for r
    using spmd_Inr(2) [OF assms that(2)] that(1) by simp
  show "f (w ! 0) = Inr (w' ! 0)" if "0 < length w"
    using spmd_Inr(2) [OF assms that] by simp
qed

lemma Bcast_positions_rank0_only:
  "length (Bcast_positions callers w) = length w"
  "r < length w \<Longrightarrow> Bcast_positions (filter (\<lambda>rank. rank = 0) [0..<n]) w ! r = w ! r"
  by (auto simp: Bcast_positions_def Bcast_def Let_def)

lemma first_half_others:
  assumes "first_half dt w = Inr w'"
  shows "length w' = length w" and "\<And>r. 0 < r \<Longrightarrow> r < length w \<Longrightarrow> w' ! r = w ! r"
proof -
  from assms obtain a wa where
    s: "spmd (\<lambda>rank s. if rank = 0 then half_kick_drift dt a s else Inr s) w = Inr wa"
    and w': "w' = Bcast_positions (filter (\<lambda>rank. rank = 0) [0..<length wa]) wa"
    by (auto simp: first_half_def split: sum.splits)
  show "length w' = length w"
    using spmd_rank0_only(1) [OF s] by (simp add: w' Bcast_positions_rank0_only)
  show "w' ! r = w ! r" if "0 < r" "r < length w" for r
    using spmd_rank0_only(1,2) [OF s] that by (simp add: w' Bcast_positions_rank0_only)
qed

lemma second_half_others:
  assumes "second_half dt w = Inr w'"
  shows "length w' = length w" and "\<And>r. 0 < r \<Longrightarrow> r < length w \<Longrightarrow> w' ! r = w ! r"
proof -
  from assms obtain a where
    s: "spmd (\<lambda>rank s. if rank = 0 then second_kick dt a s else Inr s) w = Inr w'"
    by (auto simp: second_half_def split: sum.splits)
  show "length w' = length w" by (rule spmd_rank0_only(1) [OF s])
  show "w' ! r = w ! r" if "0 < r" "r < length w" for r
    by (rule spmd_rank0_only(2) [OF s that])
qed

lemma main_iteration_others:
  assumes "main_iteration dt w = Inr w'"
  shows "length w' = length w" and "\<And>r. 0 < r \<Longrightarrow> r < length w \<Longrightarrow> w' ! r = w ! r"
proof -
  from assms obtain wa where f: "first_half dt w = Inr wa" and s: "second_half dt wa = Inr w'"
    by (auto simp: main_iteration_def split: sum.splits)
  show "length w' = length w"
    using first_half_others(1) [OF f] second_half_others(1) [OF s] by simp
  show "w' ! r = w ! r" if "0 < r" "r < length w" for r
    using first_half_others [OF f] second_half_others [OF s] that by simp
qed

lemma main_loop_never_exits:
  assumes "1 < length w" and "t (w ! 1) \<le> t_end"
  shows "main_loop fuel dt t_end w \<noteq> Exited w'"
  using assms
proof (induction fuel arbitrary: w)
  case 0
  then show ?case by simp
next
  case (Suc fuel)
  have "w ! 1 \<in> set w" using Suc.prems(1) by simp
  then have inside: "filter (\<lambda>s. t s \<le> t_end) w \<noteq> []"
    using Suc.prems(2) by (auto simp: filter_empty_conv)
  show ?case
  proof (cases "length (filter (\<lambda>s. t s \<le> t_end) w) < length w")
    case True
    then show ?thesis using inside by (simp add: Let_def)
  next
    case False
    show ?thesis
    proof (cases "main_iteration dt w")
      case (Inl e)
      then show ?thesis using inside False by (simp add: Let_def)
    next
      case (Inr wa)
      have "1 < length wa" using main_iteration_others(1) [OF Inr] Suc.prems(1) by simp
      moreover have "t (wa ! 1) \<le> t_end"
        using main_iteration_others(2) [OF Inr, of 1] Suc.prems by simp
      ultimately have "main_loop fuel dt t_end wa \<noteq> Exited w'" by (rule Suc.IH)
      then show ?thesis using inside False Inr by (simp add: Let_def)
    qed
  qed
qed

lemma main_init_length: "length (main_init n P M V) = n"
  by (simp add: main_init_def broadcast_initial_def Let_def)

lemma main_init_nth:
  "r < n \<Longrightarrow> main_init n P M V ! r =
     \<lparr>positions = Some P, masses = Some M, velocities = Some V, t = 0\<rparr>"
  by (simp add: main_init_def broadcast_initial_def Let_def bcast_def initial_conditions_def)


lemmas step_eval = main_iteration_def first_half_def second_half_def leapfrog_iteration_def
  leapfrog_first_half_def spmd_def half_kick_drift_def second_kick_def add_scaled_def
  Bcast_positions_def Bcast_def vscale_def


lemma kernel_on_axis:
  "kernel (a, 0) (b, 0) m acc =
     Inr (if b = a then acc else (fst acc + G * m * (b - a) / \<bar>b - a\<bar> ^ 3, snd acc))"
  by (simp add: kernel_eq newton_term_def vadd_def vscale_def)

lemmas axis_eval = calculate_accelerations_def strided_slice_def slice_len_def pair_update_def
  row_def kernel_on_axis enumerate_eq_zip upt_rec

lemma three_bodies_first_reduction: "reduced_accelerations three_bodies = Inr [(5 * G / 4, 0), (G, 0), (- G / 4, 0)]"
  by (simp add: three_bodies_def world_eval axis_eval)


lemma three_bodies_first_half: "first_half (1 / 60) three_bodies = Inr three_bodies_at_barrier"
  apply (simp add: first_half_def three_bodies_first_reduction)
  apply (simp add: three_bodies_def three_bodies_at_barrier_def world_eval step_eval upt_rec)
  done


lemma three_bodies_leapfrog_first_half: "leapfrog_first_half (1 / 60) three_bodies = Inr three_bodies_after_broadcast"
  apply (simp add: leapfrog_first_half_def three_bodies_first_reduction)
  apply (simp add: three_bodies_def three_bodies_after_broadcast_def world_eval step_eval upt_rec)
  done

lemma three_bodies_second_reduction: "\<exists>x y. reduced_accelerations three_bodies_at_barrier = Inr [(x, 0), (G, 0), (y, 0)]"
  by (simp add: three_bodies_at_barrier_def world_eval axis_eval)

lemma three_bodies_second_reduction_after_broadcast: "\<exists>x a y. reduced_accelerations three_bodies_after_broadcast = Inr [(x, 0), (a, 0), (y, 0)] \<and> a \<noteq> G"
  apply (simp add: three_bodies_after_broadcast_def world_eval axis_eval)
  apply (simp add: G_def power_divide)
  done

lemma three_bodies_second_half:
  "\<exists>x y. second_half (1 / 60) three_bodies_at_barrier =
     Inr [\<lparr>positions = Some [(G / 5760, 0), (1 + G / 7200, 0), (3 - G / 28800, 0)],
           masses = Some [1, 1, 1],
           velocities = Some [(x, 0), (G / 60, 0), (y, 0)], t = 1 / 60\<rparr>,
         \<lparr>positions = Some [(0, 0), (1, 0), (2, 0)], masses = Some [1, 1, 1],
           velocities = Some [(0, 0), (0, 0), (60, 0)], t = 0\<rparr>]"
proof -
  from three_bodies_second_reduction obtain x y where r: "reduced_accelerations three_bodies_at_barrier = Inr [(x, 0), (G, 0), (y, 0)]"
    by blast
  show ?thesis
    unfolding second_half_def r by (simp add: three_bodies_at_barrier_def step_eval vadd_def upt_rec)
qed

lemma three_bodies_second_half_after_broadcast:
  "\<exists>x b y. second_half (1 / 60) three_bodies_after_broadcast =
     Inr [\<lparr>positions = Some [(G / 5760, 0), (1 + G / 7200, 0), (3 - G / 28800, 0)],
           masses = Some [1, 1, 1],
           velocities = Some [(x, 0), (b, 0), (y, 0)], t = 1 / 60\<rparr>,
         \<lparr>positions = Some [(G / 5760, 0), (1 + G / 7200, 0), (3 - G / 28800, 0)],
           masses = Some [1, 1, 1],
           velocities = Some [(0, 0), (0, 0), (60, 0)], t = 0\<rparr>] \<and> b \<noteq> G / 60"
proof -
  from three_bodies_second_reduction_after_broadcast obtain x a y where
    r: "reduced_accelerations three_bodies_after_broadcast = Inr [(x, 0), (a, 0), (y, 0)]" and a: "a \<noteq> G"
    by blast
  have "G / 120 + a / 120 \<noteq> G / 60" using a by simp
  then show ?thesis
    unfolding second_half_def r by (simp add: three_bodies_after_broadcast_def step_eval vadd_def upt_rec)
qed

lemma three_bodies_code:
  "\<exists>x y. main_iteration (1 / 60) three_bodies =
     Inr [\<lparr>positions = Some [(G / 5760, 0), (1 + G / 7200, 0), (3 - G / 28800, 0)],
           masses = Some [1, 1, 1],
           velocities = Some [(x, 0), (G / 60, 0), (y, 0)], t = 1 / 60\<rparr>,
         \<lparr>positions = Some [(0, 0), (1, 0), (2, 0)], masses = Some [1, 1, 1],
           velocities = Some [(0, 0), (0, 0), (60, 0)], t = 0\<rparr>]"
  using three_bodies_second_half by (simp add: main_iteration_def three_bodies_first_half)

lemma three_bodies_spec:
  "\<exists>x b y. leapfrog_iteration (1 / 60) three_bodies =
     Inr [\<lparr>positions = Some [(G / 5760, 0), (1 + G / 7200, 0), (3 - G / 28800, 0)],
           masses = Some [1, 1, 1],
           velocities = Some [(x, 0), (b, 0), (y, 0)], t = 1 / 60\<rparr>,
         \<lparr>positions = Some [(G / 5760, 0), (1 + G / 7200, 0), (3 - G / 28800, 0)],
           masses = Some [1, 1, 1],
           velocities = Some [(0, 0), (0, 0), (60, 0)], t = 0\<rparr>] \<and> b \<noteq> G / 60"
  using three_bodies_second_half_after_broadcast by (simp add: leapfrog_iteration_def three_bodies_leapfrog_first_half)


lemma resting_body_two_processes:
  "main_iteration (1 / 60)
     [\<lparr>positions = Some [(0, 0)], masses = Some [1], velocities = Some [(0, 0)], t = x\<rparr>,
      \<lparr>positions = Some [(0, 0)], masses = Some [1], velocities = Some [(0, 0)], t = 0\<rparr>] =
   Inr [\<lparr>positions = Some [(0, 0)], masses = Some [1], velocities = Some [(0, 0)], t = x + 1 / 60\<rparr>,
        \<lparr>positions = Some [(0, 0)], masses = Some [1], velocities = Some [(0, 0)], t = 0\<rparr>]"
  by (simp add: world_eval accel_eval step_eval)

lemma resting_body_one_process:
  "main_iteration (1 / 60)
     [\<lparr>positions = Some [(0, 0)], masses = Some [1], velocities = Some [(0, 0)], t = x\<rparr>] =
   Inr [\<lparr>positions = Some [(0, 0)], masses = Some [1], velocities = Some [(0, 0)], t = x + 1 / 60\<rparr>]"
  by (simp add: world_eval accel_eval step_eval)

text \<open>
  Claim C2. The claim has the second acceleration evaluation computed at the positions
  after the drift. The broadcast of line 104 is entered by rank 0 alone, so every other
  process evaluates its share at the positions it received at start-up. For two processes
  and three bodies at \<open>(0, 0)\<close>, \<open>(1, 0)\<close>, \<open>(2, 0)\<close> with unit masses, the third moving
  with velocity \<open>(60, 0)\<close>, one pass of the loop leaves rank 1 with the old positions and
  gives body 1 the velocity \<open>(G / 60, 0)\<close>: both half-kicks used the acceleration \<open>G\<close> that
  rank 1 computes at the old positions. With the broadcast entered by every process, as
  the specification's steps 4 to 6 have it, body 1 gets a different velocity.
\<close>

theorem second_evaluation_at_stale_positions:
  "\<exists>wc vc ws vs.
     main_iteration (1 / 60)
       (main_init 2 [(0, 0), (1, 0), (2, 0)] [1, 1, 1] [(0, 0), (0, 0), (60, 0)]) = Inr wc \<and>
     positions (wc ! 0) = Some [(G / 5760, 0), (1 + G / 7200, 0), (3 - G / 28800, 0)] \<and>
     positions (wc ! 1) = Some [(0, 0), (1, 0), (2, 0)] \<and>
     velocities (wc ! 0) = Some vc \<and> vc ! 1 = (G / 60, 0) \<and>
     leapfrog_iteration (1 / 60)
       (main_init 2 [(0, 0), (1, 0), (2, 0)] [1, 1, 1] [(0, 0), (0, 0), (60, 0)]) = Inr ws \<and>
     positions (ws ! 1) = positions (ws ! 0) \<and>
     velocities (ws ! 0) = Some vs \<and> vs ! 1 \<noteq> (G / 60, 0)"
proof -
  from three_bodies_code obtain x y where
    c: "main_iteration (1 / 60) three_bodies =
     Inr [\<lparr>positions = Some [(G / 5760, 0), (1 + G / 7200, 0), (3 - G / 28800, 0)],
           masses = Some [1, 1, 1],
           velocities = Some [(x, 0), (G / 60, 0), (y, 0)], t = 1 / 60\<rparr>,
         \<lparr>positions = Some [(0, 0), (1, 0), (2, 0)], masses = Some [1, 1, 1],
           velocities = Some [(0, 0), (0, 0), (60, 0)], t = 0\<rparr>]"
    by blast
  from three_bodies_spec obtain x' b y' where
    s: "leapfrog_iteration (1 / 60) three_bodies =
     Inr [\<lparr>positions = Some [(G / 5760, 0), (1 + G / 7200, 0), (3 - G / 28800, 0)],
           masses = Some [1, 1, 1],
           velocities = Some [(x', 0), (b, 0), (y', 0)], t = 1 / 60\<rparr>,
         \<lparr>positions = Some [(G / 5760, 0), (1 + G / 7200, 0), (3 - G / 28800, 0)],
           masses = Some [1, 1, 1],
           velocities = Some [(0, 0), (0, 0), (60, 0)], t = 0\<rparr>]"
    and b: "b \<noteq> G / 60"
    by blast
  show ?thesis
    unfolding three_bodies_def [symmetric] c s using b by simp
qed

text \<open>
  Claim C3. At the barrier of line 106 the processes do not hold the same positions: for
  two processes and one body at \<open>(0, 0)\<close> with velocity \<open>(60, 0)\<close>, rank 0 holds the position
  \<open>(1, 0)\<close> after its drift and rank 1 still holds \<open>(0, 0)\<close>, because rank 1 never enters the
  broadcast of line 104. With the broadcast entered by every process both would hold
  \<open>(1, 0)\<close>.
\<close>

theorem workers_disagree_at_barrier:
  "first_half (1 / 60) (main_init 2 [(0, 0)] [1] [(60, 0)]) =
     Inr [\<lparr>positions = Some [(1, 0)], masses = Some [1], velocities = Some [(60, 0)], t = 0\<rparr>,
          \<lparr>positions = Some [(0, 0)], masses = Some [1], velocities = Some [(60, 0)], t = 0\<rparr>] \<and>
   leapfrog_first_half (1 / 60) (main_init 2 [(0, 0)] [1] [(60, 0)]) =
     Inr [\<lparr>positions = Some [(1, 0)], masses = Some [1], velocities = Some [(60, 0)], t = 0\<rparr>,
          \<lparr>positions = Some [(1, 0)], masses = Some [1], velocities = Some [(60, 0)], t = 0\<rparr>]"
  by (simp add: world_eval accel_eval step_eval)

text \<open>
  Claim C4. Line 122 advances \<open>t\<close> on rank 0 only, so on every other rank the test
  \<^verbatim>\<open>t <= t_end\<close> of line 82 stays true. With the source's \<open>dt = 1/60\<close> and \<open>t_end = 1\<close>,
  two processes and one body at rest: no amount of fuel lets the run end with all
  processes out of the loop; after 61 passes rank 0 has left the loop with \<open>t = 61/60\<close>
  and rank 1 is still inside it with \<open>t = 0\<close>. A single process does leave the loop after
  61 passes.
\<close>

theorem workers_never_leave_loop:
  "(\<forall>fuel w'. main_loop fuel (1 / 60) 1 (main_init 2 [(0, 0)] [1] [(0, 0)]) \<noteq> Exited w') \<and>
   main_loop 62 (1 / 60) 1 (main_init 2 [(0, 0)] [1] [(0, 0)]) =
     Hung [\<lparr>positions = Some [(0, 0)], masses = Some [1], velocities = Some [(0, 0)], t = 61 / 60\<rparr>,
           \<lparr>positions = Some [(0, 0)], masses = Some [1], velocities = Some [(0, 0)], t = 0\<rparr>] \<and>
   main_loop 62 (1 / 60) 1 (main_init 1 [(0, 0)] [1] [(0, 0)]) =
     Exited [\<lparr>positions = Some [(0, 0)], masses = Some [1], velocities = Some [(0, 0)], t = 61 / 60\<rparr>]"
proof -
  have i2: "main_init 2 [(0, 0)] [1] [(0, 0)] =
      [\<lparr>positions = Some [(0, 0)], masses = Some [1], velocities = Some [(0, 0)], t = 0\<rparr>,
       \<lparr>positions = Some [(0, 0)], masses = Some [1], velocities = Some [(0, 0)], t = 0\<rparr>]"
    by (simp add: world_eval upt_rec)
  have i1: "main_init 1 [(0, 0)] [1] [(0, 0)] =
      [\<lparr>positions = Some [(0, 0)], masses = Some [1], velocities = Some [(0, 0)], t = 0\<rparr>]"
    by (simp add: world_eval upt_rec)
  have never: "\<forall>fuel w'. main_loop fuel (1 / 60) 1 (main_init 2 [(0, 0)] [1] [(0, 0)]) \<noteq> Exited w'"
  proof (intro allI)
    fix fuel w'
    show "main_loop fuel (1 / 60) 1 (main_init 2 [(0, 0)] [1] [(0, 0)]) \<noteq> Exited w'"
      by (rule main_loop_never_exits) (simp_all add: main_init_length main_init_nth)
  qed
  have hung: "main_loop 62 (1 / 60) 1 (main_init 2 [(0, 0)] [1] [(0, 0)]) =
     Hung [\<lparr>positions = Some [(0, 0)], masses = Some [1], velocities = Some [(0, 0)], t = 61 / 60\<rparr>,
           \<lparr>positions = Some [(0, 0)], masses = Some [1], velocities = Some [(0, 0)], t = 0\<rparr>]"
    unfolding i2 by (simp add: eval_nat_numeral resting_body_two_processes Let_def)
  have exited: "main_loop 62 (1 / 60) 1 (main_init 1 [(0, 0)] [1] [(0, 0)]) =
     Exited [\<lparr>positions = Some [(0, 0)], masses = Some [1], velocities = Some [(0, 0)], t = 61 / 60\<rparr>]"
    unfolding i1 by (simp add: eval_nat_numeral resting_body_one_process Let_def)
  show ?thesis using never hung exited by blast
qed

section \<open>Velocities\<close>

text \<open>
  Claim C8, as stated: velocities exist at the coordinator only and no operation transmits
  them to another process. Line 79 broadcasts them: rank 1 has \<^verbatim>\<open>None\<close> before the
  broadcast of the initial conditions and the coordinator's velocity array after it.
\<close>

theorem velocities_broadcast_to_workers:
  "velocities (initial_conditions 1 [(0, 0)] [1] [(60, 0)]) = None \<and>
   velocities (main_init 2 [(0, 0)] [1] [(60, 0)] ! 1) = Some [(60, 0)]"
  by (simp add: world_eval)

text \<open>
  Claim C8, amended: the initial velocity array is broadcast once from the coordinator to
  every process with the initial conditions (line 79), so every rank then holds it. Inside
  the loop the velocities are changed by the coordinator only: one pass of the loop leaves
  the velocity array of every other process as it was.
\<close>

theorem velocities_mutated_only_by_coordinator:
  "(\<forall>r<n. velocities (main_init n P M V ! r) = Some V) \<and>
   (\<forall>w' r. main_iteration dt w = Inr w' \<longrightarrow> 0 < r \<longrightarrow> r < length w \<longrightarrow>
      velocities (w' ! r) = velocities (w ! r))"
proof -
  have "\<forall>r<n. velocities (main_init n P M V ! r) = Some V"
    by (simp add: main_init_nth)
  moreover have "\<forall>w' r. main_iteration dt w = Inr w' \<longrightarrow> 0 < r \<longrightarrow> r < length w \<longrightarrow>
      velocities (w' ! r) = velocities (w ! r)"
  proof (intro allI impI)
    fix w' r
    assume "main_iteration dt w = Inr w'" "0 < r" "r < length w"
    then have "w' ! r = w ! r" by (rule main_iteration_others(2))
    then show "velocities (w' ! r) = velocities (w ! r)" by simp
  qed
  ultimately show ?thesis by blast
qed

theorem velocities_mutated_only_by_coordinator_witness:
  "velocities (main_init 2 [(0, 0)] [1] [(60, 0)] ! 1) = Some [(60, 0)] \<and>
   (\<exists>w'. main_iteration (1 / 60) (main_init 2 [(0, 0)] [1] [(60, 0)]) = Inr w' \<and>
      velocities (w' ! 0) = Some [(60, 0)] \<and> positions (w' ! 0) = Some [(1, 0)] \<and>
      velocities (w' ! 1) = velocities (main_init 2 [(0, 0)] [1] [(60, 0)] ! 1))"
proof -
  define w where "w = main_init 2 [(0, 0)] [1] [(60, 0)]"
  define w' where "w' =
     [\<lparr>positions = Some [(1, 0)], masses = Some [1], velocities = Some [(60, 0)], t = 1 / 60\<rparr>,
      \<lparr>positions = Some [(0, 0)], masses = Some [1], velocities = Some [(60, 0)], t = 0\<rparr>]"
  have it: "main_iteration (1 / 60) w = Inr w'"
    by (simp add: w_def w'_def world_eval accel_eval step_eval)
  have len: "(1::nat) < length w" by (simp add: w_def main_init_length)
  note inst = velocities_mutated_only_by_coordinator
    [where n = 2 and P = "[(0, 0)]" and M = "[1]" and V = "[(60, 0)]" and dt = "1 / 60" and w = w]
  have a: "velocities (main_init 2 [(0, 0)] [1] [(60, 0)] ! 1) = Some [(60, 0)]"
    using inst [THEN conjunct1, rule_format, of 1] by simp
  have b: "velocities (w' ! 1) = velocities (w ! 1)"
    using inst [THEN conjunct2, rule_format, OF it _ len] by simp
  have c: "velocities (w' ! 0) = Some [(60, 0)]" "positions (w' ! 0) = Some [(1, 0)]"
    by (simp_all add: w'_def)
  show ?thesis using a b c it unfolding w_def by blast
qed

end
